theory Spec2Isabelle
  imports Main
begin

section \<open>Text\<close>

text \<open>
  A Python \<open>str\<close> is modelled as a \<open>string\<close>: one \<open>char\<close> stands for one character of
  the Python string (a code point below 256), so \<open>length\<close> is Python's \<open>len\<close>.
\<close>

abbreviation dquote :: char where
  "dquote \<equiv> CHR 0x22"

abbreviation space :: char where
  "space \<equiv> CHR 0x20"

text \<open>\<^verbatim>\<open>query.replace('"', '""')\<close>\<close>

primrec replace_dquote :: "string \<Rightarrow> string" where
  "replace_dquote [] = []"
| "replace_dquote (c # cs) =
     (if c = dquote then dquote # dquote # replace_dquote cs else c # replace_dquote cs)"


section \<open>Building the full-text query\<close>

text \<open>
  The four search operations start with the same lines:
  \<^verbatim>\<open>
  if ' ' in query:
      escaped_query = query.replace('"', '""')
      quoted_query = f'"{escaped_query}"'
  else:
      quoted_query = query
  \<close>
\<close>

definition quoted_query :: "string \<Rightarrow> string" where
  "quoted_query query =
     (if space \<in> set query then [dquote] @ replace_dquote query @ [dquote] else query)"

text \<open>The string bound to the \<open>MATCH ?\<close> parameter by each operation.\<close>

definition search_fts_query :: "string \<Rightarrow> string" where
  "search_fts_query query =
     ''content:'' @ quoted_query query @ '' OR filename:'' @ quoted_query query"

definition search_content_only_fts_query :: "string \<Rightarrow> string" where
  "search_content_only_fts_query query = ''content:'' @ quoted_query query"

definition search_filename_only_fts_query :: "string \<Rightarrow> string" where
  "search_filename_only_fts_query query = ''filename:'' @ quoted_query query"

definition search_database_fts_query :: "string \<Rightarrow> string \<Rightarrow> string" where
  "search_database_fts_query query search_type =
     (if search_type = ''content'' then ''content:'' @ quoted_query query
      else if search_type = ''filename'' then ''filename:'' @ quoted_query query
      else if search_type = ''all'' then
        ''content:'' @ quoted_query query @ '' OR filename:'' @ quoted_query query
      else ''content:'' @ quoted_query query)"



section \<open>Literal, case-insensitive matching\<close>

text \<open>
  \<^verbatim>\<open>re.compile(re.escape(query), re.IGNORECASE)\<close>: the escaped pattern matches the
  characters of the query one by one, each up to case. Below code point 256 two characters
  match up to case exactly when their lower-case forms are equal.
\<close>

definition py_lower :: "char \<Rightarrow> char" where
  "py_lower c =
     (let n = (of_char c :: nat)
      in if (65 \<le> n \<and> n \<le> 90) \<or> (192 \<le> n \<and> n \<le> 222 \<and> n \<noteq> 215)
         then char_of (n + 32) else c)"

definition ignorecase :: "char \<Rightarrow> char \<Rightarrow> bool" where
  "ignorecase a b = (py_lower a = py_lower b)"

text \<open>The pattern matches at the head of the text.\<close>

fun match_here :: "string \<Rightarrow> string \<Rightarrow> bool" where
  "match_here [] t = True"
| "match_here (p # ps) [] = False"
| "match_here (p # ps) (c # cs) = (ignorecase p c \<and> match_here ps cs)"

text \<open>
  \<^verbatim>\<open>pattern.finditer(text)\<close>: the start positions of the matches, scanning from the
  left; the scan resumes at the end of a match, one character further after an empty match.
  The third argument is the position of the head of the remaining text.
\<close>

fun finditer :: "string \<Rightarrow> string \<Rightarrow> nat \<Rightarrow> nat list" where
  "finditer q [] n = (if q = [] then [n] else [])"
| "finditer q (c # cs) n =
     (if match_here q (c # cs) then
        (if q = [] then n # finditer q cs (Suc n)
         else n # finditer q (drop (length q) (c # cs)) (n + length q))
      else finditer q cs (Suc n))"

text \<open>
  \<^verbatim>\<open>re.sub(query_regex, repl, text, flags=re.IGNORECASE)\<close>, with the replacement
  given as a function of the matched text.
\<close>

fun re_sub :: "string \<Rightarrow> (string \<Rightarrow> string) \<Rightarrow> string \<Rightarrow> string" where
  "re_sub q repl [] = (if q = [] then repl [] else [])"
| "re_sub q repl (c # cs) =
     (if match_here q (c # cs) then
        (if q = [] then repl [] @ c # re_sub q repl cs
         else repl (take (length q) (c # cs)) @ re_sub q repl (drop (length q) (c # cs)))
      else c # re_sub q repl cs)"


section \<open>Slices\<close>

text \<open>
  \<^verbatim>\<open>xs[a:b]\<close> with integer bounds: a negative bound counts from the end, and both
  bounds are clipped to the list.
\<close>

definition slice_bound :: "nat \<Rightarrow> int \<Rightarrow> nat" where
  "slice_bound n i = (if i < 0 then nat (max 0 (int n + i)) else min n (nat i))"

definition py_slice :: "'a list \<Rightarrow> int \<Rightarrow> int \<Rightarrow> 'a list" where
  "py_slice xs a b =
     (let lo = slice_bound (length xs) a; hi = slice_bound (length xs) b
      in take (hi - lo) (drop lo xs))"


section \<open>Snippets and highlighting\<close>

definition ellipsis :: string where
  "ellipsis = ''...''"

definition span_open :: string where
  "span_open = ''<span class=\"highlight\">''"

definition span_close :: string where
  "span_close = ''</span>''"

text \<open>The replacement template \<^verbatim>\<open><span class="highlight">\g<0></span>\<close>.\<close>

definition highlight_repl :: "string \<Rightarrow> string" where
  "highlight_repl m = span_open @ m @ span_close"

definition highlight :: "string \<Rightarrow> string \<Rightarrow> string" where
  "highlight query snippet = re_sub query highlight_repl snippet"

text \<open>
  The branch \<^verbatim>\<open>if matches:\<close> of \<open>search_database\<close>, for the first match starting
  at \<open>m_start\<close>:
  \<^verbatim>\<open>
  start = max(0, match.start() - snippet_length)
  end = min(len(full_content), match.end() + snippet_length)
  snippet = full_content[start:end]
  if start > 0: snippet = "..." + snippet
  if end < len(full_content): snippet = snippet + "..."
  \<close>
\<close>

definition match_snippet :: "string \<Rightarrow> string \<Rightarrow> int \<Rightarrow> nat \<Rightarrow> string" where
  "match_snippet full_content query snippet_length m_start =
     (let m_end = m_start + length query;
          start = max 0 (int m_start - snippet_length);
          end = min (int (length full_content)) (int m_end + snippet_length);
          snippet = py_slice full_content start end;
          snippet = (if start > 0 then ellipsis @ snippet else snippet);
          snippet = (if end < int (length full_content) then snippet @ ellipsis else snippet)
      in snippet)"

text \<open>
  The \<^verbatim>\<open>else:\<close> branch:
  \<^verbatim>\<open>
  snippet = full_content[:snippet_length*2]
  if len(full_content) > snippet_length*2: snippet = snippet + "..."
  \<close>
\<close>

definition fallback_snippet :: "string \<Rightarrow> int \<Rightarrow> string" where
  "fallback_snippet full_content snippet_length =
     (let snippet = py_slice full_content 0 (snippet_length * 2)
      in if int (length full_content) > snippet_length * 2 then snippet @ ellipsis
         else snippet)"

text \<open>
  Both branches together: the snippet before highlighting, and whether a match was found
  (\<open>extract_snippet\<close> in the specification).
\<close>

definition extract_snippet :: "string \<Rightarrow> string \<Rightarrow> int \<Rightarrow> string \<times> bool" where
  "extract_snippet full_content query snippet_length =
     (case finditer query full_content 0 of
        m_start # _ \<Rightarrow> (match_snippet full_content query snippet_length m_start, True)
      | [] \<Rightarrow> (fallback_snippet full_content snippet_length, False))"

text \<open>\<^verbatim>\<open>full_content[:1000] + ("..." if len(full_content) > 1000 else "")\<close>\<close>

definition content_preview_of :: "string \<Rightarrow> string" where
  "content_preview_of full_content =
     py_slice full_content 0 1000 @ (if length full_content > 1000 then ellipsis else [])"


section \<open>The environment\<close>

datatype py_error = ValueError | TypeError | OSError | DatabaseError

datatype log_entry =
    Indexing_from string
  | Found_files nat
  | Indexed_progress nat nat
  | Error_processing string
  | Error_reading_file string
  | Committed_batch nat nat
  | Indexing_complete nat
  | Error_loading_file string
  | Error_reading_full_content string
  | Error_searching_database

text \<open>
  The file system as the program sees it: \<open>fs path\<close> is the decoded text of a file that
  can be opened and read (undecodable bytes already dropped, as \<open>errors='ignore'\<close> does),
  and \<open>None\<close> when \<open>open\<close> or \<open>read\<close> raises.
\<close>

type_synonym file_system = "string \<Rightarrow> string option"

text \<open>
  A row returned by the \<open>SELECT\<close> of a search operation. The column \<open>content\<close> of the
  table is nullable.
\<close>

record 'r hit =
  hit_filename :: string
  hit_filepath :: string
  hit_content :: "string option"
  hit_rank :: 'r

text \<open>
  The full-text engine: the rows for a \<open>MATCH\<close> string and a \<open>LIMIT\<close>, in rank order, or
  the exception that \<open>cursor.execute\<close> raises.
\<close>

type_synonym 'r fts_engine = "string \<Rightarrow> int \<Rightarrow> py_error + 'r hit list"


section \<open>The command-line search operations\<close>

definition load_full_content :: "file_system \<Rightarrow> string \<Rightarrow> string \<times> log_entry list" where
  "load_full_content fs filepath =
     (case fs filepath of
        Some text \<Rightarrow> (text, [])
      | None \<Rightarrow> ([], [Error_loading_file filepath]))"

text \<open>
  \<^verbatim>\<open>
  for filename, filepath, sample_content, rank in results:
      full_content = self.load_full_content(filepath)
      full_results.append((filename, filepath, full_content, rank))
  \<close>
\<close>

fun full_results ::
  "file_system \<Rightarrow> 'r hit list \<Rightarrow> (string \<times> string \<times> string \<times> 'r) list \<times> log_entry list" where
  "full_results fs [] = ([], [])"
| "full_results fs (h # hs) =
     (let (full_content, l) = load_full_content fs (hit_filepath h);
          (rs, ls) = full_results fs hs
      in ((hit_filename h, hit_filepath h, full_content, hit_rank h) # rs, l @ ls))"

definition search ::
  "'r fts_engine \<Rightarrow> file_system \<Rightarrow> string \<Rightarrow> int
    \<Rightarrow> py_error + (string \<times> string \<times> string \<times> 'r) list \<times> log_entry list" where
  "search engine fs query limit =
     (case engine (search_fts_query query) limit of
        Inl e \<Rightarrow> Inl e
      | Inr results \<Rightarrow> Inr (full_results fs results))"

definition search_content_only ::
  "'r fts_engine \<Rightarrow> file_system \<Rightarrow> string \<Rightarrow> int
    \<Rightarrow> py_error + (string \<times> string \<times> string \<times> 'r) list \<times> log_entry list" where
  "search_content_only engine fs query limit =
     (case engine (search_content_only_fts_query query) limit of
        Inl e \<Rightarrow> Inl e
      | Inr results \<Rightarrow> Inr (full_results fs results))"

definition search_filename_only ::
  "'r fts_engine \<Rightarrow> file_system \<Rightarrow> string \<Rightarrow> int
    \<Rightarrow> py_error + (string \<times> string \<times> string \<times> 'r) list \<times> log_entry list" where
  "search_filename_only engine fs query limit =
     (case engine (search_filename_only_fts_query query) limit of
        Inl e \<Rightarrow> Inl e
      | Inr results \<Rightarrow> Inr (full_results fs results))"


section \<open>The web search operation\<close>

record 'r search_result =
  file_path :: string
  file_name :: string
  snippet :: string
  rank :: 'r
  content_preview :: string

text \<open>
  The body of the loop over the rows. Reading the file falls back to the content of the
  row; when that is \<open>NULL\<close>, \<open>pattern.finditer(None)\<close> raises \<open>TypeError\<close>.
\<close>

definition process_row ::
  "file_system \<Rightarrow> string \<Rightarrow> int \<Rightarrow> 'r hit
    \<Rightarrow> (py_error + 'r search_result) \<times> log_entry list" where
  "process_row fs query snippet_length h =
     (let (full_content, l) =
            (case fs (hit_filepath h) of
               Some text \<Rightarrow> (Some text, [])
             | None \<Rightarrow> (hit_content h, [Error_reading_full_content (hit_filepath h)]))
      in case full_content of
           None \<Rightarrow> (Inl TypeError, l)
         | Some full_content \<Rightarrow>
             (Inr \<lparr>file_path = hit_filepath h,
                   file_name = hit_filename h,
                   snippet = highlight query (fst (extract_snippet full_content query snippet_length)),
                   rank = hit_rank h,
                   content_preview = content_preview_of full_content\<rparr>, l))"

fun process_rows ::
  "file_system \<Rightarrow> string \<Rightarrow> int \<Rightarrow> 'r hit list
    \<Rightarrow> (py_error + 'r search_result list) \<times> log_entry list" where
  "process_rows fs query snippet_length [] = (Inr [], [])"
| "process_rows fs query snippet_length (h # hs) =
     (case process_row fs query snippet_length h of
        (Inl e, l) \<Rightarrow> (Inl e, l)
      | (Inr r, l) \<Rightarrow>
          (case process_rows fs query snippet_length hs of
             (Inl e, ls) \<Rightarrow> (Inl e, l @ ls)
           | (Inr rs, ls) \<Rightarrow> (Inr (r # rs), l @ ls)))"

datatype connection = Open | Closed

text \<open>
  \<open>search_database\<close>: \<open>sqlite3.connect\<close> runs before the \<open>try\<close>, so its failure
  propagates; everything after it is inside \<open>try ... except Exception ... finally\<close>.
  The result is the returned list, the state of the connection and the lines printed.
\<close>

definition search_database ::
  "bool \<Rightarrow> 'r fts_engine \<Rightarrow> file_system \<Rightarrow> string \<Rightarrow> int \<Rightarrow> string
    \<Rightarrow> py_error + 'r search_result list \<times> connection \<times> log_entry list" where
  "search_database connect_ok engine fs query snippet_length search_type =
     (if \<not> connect_ok then Inl DatabaseError
      else
        let conn = Open;
            (body, l) =
              (case engine (search_database_fts_query query search_type) 10000 of
                 Inl e \<Rightarrow> (Inl e, [])
               | Inr rows \<Rightarrow> process_rows fs query snippet_length rows);
            (results, l) =
              (case body of
                 Inl e \<Rightarrow> ([], l @ [Error_searching_database])
               | Inr results \<Rightarrow> (results, l));
            conn = Closed
        in Inr (results, conn, l))"


section \<open>The batch indexer\<close>

text \<open>
  The table \<open>text_files\<close> behind one connection: the rows (filename, filepath, content)
  already committed, the rows inserted since the last commit, and the number of calls of
  \<open>commit\<close> so far. Row ids follow the order of insertion.
\<close>

type_synonym db_row = "string \<times> string \<times> string"

record database =
  committed :: "db_row list"
  pending :: "db_row list"
  commit_count :: nat

definition commit :: "database \<Rightarrow> database" where
  "commit d = d\<lparr>committed := committed d @ pending d, pending := [],
                commit_count := Suc (commit_count d)\<rparr>"

text \<open>\<^verbatim>\<open>SELECT COUNT(*) FROM text_files\<close>, on the same connection.\<close>

definition count_files :: "database \<Rightarrow> nat" where
  "count_files d = length (committed d) + length (pending d)"

text \<open>\<^verbatim>\<open>f.read(sample_size)\<close>: a negative size reads everything.\<close>

definition py_read :: "string \<Rightarrow> int \<Rightarrow> string" where
  "py_read text n = (if n < 0 then text else take (nat n) text)"

definition read_file_content_sample ::
  "file_system \<Rightarrow> string \<Rightarrow> int \<Rightarrow> string \<times> log_entry list" where
  "read_file_content_sample fs path sample_size =
     (case fs path of
        Some text \<Rightarrow> (py_read text sample_size, [])
      | None \<Rightarrow> ([], [Error_reading_file path]))"

text \<open>\<^verbatim>\<open>os.path.basename\<close>: what follows the last slash.\<close>

definition basename :: "string \<Rightarrow> string" where
  "basename p = rev (takeWhile (\<lambda>c. c \<noteq> CHR ''/'') (rev p))"

text \<open>
  The body of the inner loop, for the \<open>j\<close>-th document of the run. \<open>insert_ok j\<close> tells
  whether the \<open>INSERT\<close> of that document goes through; when it raises, the handler logs and
  continues.
\<close>

definition index_file ::
  "file_system \<Rightarrow> (nat \<Rightarrow> bool) \<Rightarrow> int \<Rightarrow> nat
    \<Rightarrow> database \<times> log_entry list \<Rightarrow> nat \<times> string \<Rightarrow> database \<times> log_entry list" where
  "index_file fs insert_ok content_sample_size total_files s jp =
     (let (d, lg) = s;
          (j, path) = jp;
          (content_sample, rl) = read_file_content_sample fs path content_sample_size;
          filename = basename path
      in if insert_ok j then
           (d\<lparr>pending := pending d @ [(filename, path, content_sample)]\<rparr>,
            lg @ rl @ (if j mod 100 = 0 \<or> j = total_files
                       then [Indexed_progress j total_files] else []))
         else (d, lg @ rl @ [Error_processing path]))"

text \<open>
  One round of the outer loop, for the batch starting at index \<open>i\<close>:
  \<^verbatim>\<open>
  batch = txt_files[i:i + batch_size]
  for j, path in enumerate(batch, i + 1): ...
  self.conn.commit()
  \<close>
\<close>

definition index_batch ::
  "file_system \<Rightarrow> (nat \<Rightarrow> bool) \<Rightarrow> int \<Rightarrow> string list \<Rightarrow> nat
    \<Rightarrow> database \<times> log_entry list \<Rightarrow> nat \<Rightarrow> database \<times> log_entry list" where
  "index_batch fs insert_ok content_sample_size txt_files batch_size s i =
     (let total_files = length txt_files;
          batch = take batch_size (drop i txt_files);
          (d, lg) = foldl (index_file fs insert_ok content_sample_size total_files) s
                      (zip [i + 1 ..< i + 1 + length batch] batch)
      in (commit d,
          lg @ [Committed_batch (i div batch_size + 1)
                  ((total_files + batch_size - 1) div batch_size)]))"

text \<open>\<^verbatim>\<open>range(start, stop, step)\<close> for a positive step.\<close>

function py_range :: "nat \<Rightarrow> nat \<Rightarrow> nat \<Rightarrow> nat list" where
  "py_range i stop step = (if 0 < step \<and> i < stop then i # py_range (i + step) stop step else [])"
  by pat_completeness auto
termination
  by (relation "measure (\<lambda>(i, stop, step). stop - i)") auto

datatype py_value = PyNone | PyInt int

text \<open>
  \<open>index_text_files\<close>, with the result of the \<open>glob\<close> call as \<open>txt_files\<close>. A batch size
  of zero makes \<open>range\<close> raise \<open>ValueError\<close>; a negative one gives an empty range. The
  function has no \<open>return\<close> statement.
\<close>

definition index_text_files ::
  "file_system \<Rightarrow> (nat \<Rightarrow> bool) \<Rightarrow> string \<Rightarrow> string list \<Rightarrow> int \<Rightarrow> int \<Rightarrow> database
    \<Rightarrow> py_error + py_value \<times> database \<times> log_entry list" where
  "index_text_files fs insert_ok text_directory txt_files batch_size content_sample_size d =
     (let total_files = length txt_files;
          lg = [Indexing_from text_directory, Found_files total_files]
      in if batch_size = 0 then Inl ValueError
         else
           let (d, lg) =
                 (if batch_size < 0 then (d, lg)
                  else foldl (index_batch fs insert_ok content_sample_size txt_files
                                (nat batch_size))
                         (d, lg) (py_range 0 total_files (nat batch_size)))
           in Inr (PyNone, d, lg @ [Indexing_complete total_files]))"


section \<open>Serving images\<close>

text \<open>
  \<open>str.isdigit\<close>: the string is not empty and every character is a digit. Below code point
  256 the digits are \<open>0\<close> to \<open>9\<close> and the superscripts two, three and one (code points 178,
  179 and 185).
\<close>

definition isdigit_char :: "char \<Rightarrow> bool" where
  "isdigit_char c =
     (let n = (of_char c :: nat) in (48 \<le> n \<and> n \<le> 57) \<or> n = 178 \<or> n = 179 \<or> n = 185)"

definition isdigit :: "string \<Rightarrow> bool" where
  "isdigit s = (s \<noteq> [] \<and> list_all isdigit_char s)"

definition isdecimal_char :: "char \<Rightarrow> bool" where
  "isdecimal_char c = (let n = (of_char c :: nat) in 48 \<le> n \<and> n \<le> 57)"

text \<open>
  \<open>int(s)\<close> on a string of digits, the only strings it is applied to here: the decimal
  value, or \<open>ValueError\<close> when a digit is not a decimal digit. The bound that recent
  interpreters put on the number of digits is left out.
\<close>

definition py_int :: "string \<Rightarrow> py_error + int" where
  "py_int s =
     (if s \<noteq> [] \<and> list_all isdecimal_char s
      then Inr (foldl (\<lambda>a c. 10 * a + (int (of_char c) - 48)) 0 s)
      else Inl ValueError)"

definition str_contains :: "string \<Rightarrow> string \<Rightarrow> bool" where
  "str_contains sub s = list_ex (\<lambda>i. take (length sub) (drop i s) = sub) [0 ..< Suc (length s)]"

definition startswith :: "string \<Rightarrow> string \<Rightarrow> bool" where
  "startswith s pre = (take (length pre) s = pre)"

definition os_path_join :: "string \<Rightarrow> string \<Rightarrow> string" where
  "os_path_join a b =
     (if startswith b ''/'' then b
      else if a = [] \<or> last a = CHR ''/'' then a @ b
      else a @ ''/'' @ b)"

datatype response =
    Status_400 string
  | Status_404 string
  | Send_file string
  | Unhandled py_error

text \<open>
  \<open>view_image\<close>, with \<open>isfile path\<close> for
  \<^verbatim>\<open>os.path.exists(path) and os.path.isfile(path)\<close>. An exception that leaves the
  handler is answered by the framework with status 500.
\<close>

definition view_image :: "(string \<Rightarrow> bool) \<Rightarrow> string \<Rightarrow> string \<Rightarrow> response" where
  "view_image isfile dir_num filename =
     (if \<not> isdigit dir_num then Status_400 ''Invalid directory''
      else
        case py_int dir_num of
          Inl e \<Rightarrow> Unhandled e
        | Inr n \<Rightarrow>
            if n < 1 \<or> n > 12 then Status_400 ''Invalid directory''
            else if str_contains ''..'' filename \<or> startswith filename ''/''
            then Status_400 ''Invalid filename''
            else
              let base_path = ''/home/jon/Documents/Epstein dump nov 12/'' @ dir_num;
                  full_path = os_path_join base_path filename
              in if isfile full_path then Send_file full_path
                 else Status_404 ''File not found'')"


section \<open>Notions of the specification\<close>

text \<open>The query occurs in the text at position \<open>i\<close>, up to case.\<close>

definition occurs_at :: "string \<Rightarrow> string \<Rightarrow> nat \<Rightarrow> bool" where
  "occurs_at q t i =
     (i + length q \<le> length t \<and> list_all2 ignorecase q (take (length q) (drop i t)))"

text \<open>All positions at which the query occurs, in increasing order.\<close>

definition occurrences :: "string \<Rightarrow> string \<Rightarrow> nat list" where
  "occurrences q t = filter (occurs_at q t) [0 ..< Suc (length t)]"

text \<open>
  The text with the stretches of length \<open>k\<close> starting at the positions \<open>ps\<close> put between
  the highlight markers; \<open>off\<close> is the position of the head of the text.
\<close>

fun wrap_at :: "nat \<Rightarrow> nat \<Rightarrow> nat list \<Rightarrow> string \<Rightarrow> string" where
  "wrap_at k off [] t = t"
| "wrap_at k off (p # ps) t =
     take (p - off) t @ span_open @ take k (drop (p - off) t) @ span_close
       @ wrap_at k (p + k) ps (drop (p - off + k) t)"

text \<open>The rows that indexing the documents numbered \<open>j\<close> (from 1) adds to the table.\<close>

definition row_of :: "file_system \<Rightarrow> int \<Rightarrow> string \<Rightarrow> db_row" where
  "row_of fs content_sample_size path =
     (basename path, path,
      (case fs path of None \<Rightarrow> [] | Some text \<Rightarrow> py_read text content_sample_size))"

definition rows_of ::
  "file_system \<Rightarrow> (nat \<Rightarrow> bool) \<Rightarrow> int \<Rightarrow> nat \<Rightarrow> string list \<Rightarrow> db_row list" where
  "rows_of fs insert_ok content_sample_size i files =
     map (\<lambda>(j, p). row_of fs content_sample_size p)
       (filter (\<lambda>(j, p). insert_ok j) (zip [i + 1 ..< i + 1 + length files] files))"

text \<open>The lines printed while the \<open>j\<close>-th document is indexed.\<close>

definition file_log :: "file_system \<Rightarrow> (nat \<Rightarrow> bool) \<Rightarrow> nat \<Rightarrow> nat \<times> string \<Rightarrow> log_entry list" where
  "file_log fs insert_ok total_files jp =
     (case jp of (j, path) \<Rightarrow>
        (if fs path = None then [Error_reading_file path] else [])
          @ (if insert_ok j then
               (if j mod 100 = 0 \<or> j = total_files then [Indexed_progress j total_files] else [])
             else [Error_processing path]))"

text \<open>
  The state of the indexer after the first \<open>k\<close> rounds of the outer loop, that is,
  right after the \<open>k\<close>-th commit.
\<close>

definition after_batches ::
  "file_system \<Rightarrow> (nat \<Rightarrow> bool) \<Rightarrow> int \<Rightarrow> string list \<Rightarrow> nat
    \<Rightarrow> database \<times> log_entry list \<Rightarrow> nat \<Rightarrow> database \<times> log_entry list" where
  "after_batches fs insert_ok content_sample_size txt_files batch_size s k =
     foldl (index_batch fs insert_ok content_sample_size txt_files batch_size) s
       (take k (py_range 0 (length txt_files) batch_size))"


section \<open>Sample environments\<close>

text \<open>A file system with one readable document, and rows as a search returns them.\<close>

definition sample_fs :: file_system where
  "sample_fs = [''/TEXT/001/a.txt'' \<mapsto> ''Hello The theory of things'']"

definition sample_hit :: "int hit" where
  "sample_hit = \<lparr>hit_filename = ''a.txt'', hit_filepath = ''/TEXT/001/a.txt'',
                  hit_content = Some ''Hello The'', hit_rank = - 1\<rparr>"

text \<open>A row whose file has been removed since it was indexed.\<close>

definition stale_hit :: "int hit" where
  "stale_hit = \<lparr>hit_filename = ''b.txt'', hit_filepath = ''/TEXT/001/b.txt'',
                 hit_content = Some ''Paris is lovely'', hit_rank = - 2\<rparr>"

text \<open>A row whose content is \<open>NULL\<close> and whose file has been removed.\<close>

definition null_hit :: "int hit" where
  "null_hit = \<lparr>hit_filename = ''c.txt'', hit_filepath = ''/TEXT/001/c.txt'',
                hit_content = None, hit_rank = - 3\<rparr>"

definition stale_engine :: "int fts_engine" where
  "stale_engine q limit = Inr [stale_hit]"

definition null_engine :: "int fts_engine" where
  "null_engine q limit = Inr [sample_hit, null_hit]"

definition failing_engine :: "int fts_engine" where
  "failing_engine q limit = Inl DatabaseError"

definition empty_db :: database where
  "empty_db = \<lparr>committed = [], pending = [], commit_count = 0\<rparr>"

definition accept_all :: "nat \<Rightarrow> bool" where
  "accept_all j = True"

definition reject_third :: "nat \<Rightarrow> bool" where
  "reject_third j = (j \<noteq> 3)"

definition five_files :: "string list" where
  "five_files = [''/TEXT/001/a.txt'', ''/TEXT/001/b.txt'', ''/TEXT/001/c.txt'',
                 ''/TEXT/002/d.txt'', ''/TEXT/002/e.txt'']"


section \<open>Facts about the query construction\<close>



section \<open>Facts about matching, slices and snippets\<close>

lemma match_here_iff:
  "match_here q t \<longleftrightarrow> length q \<le> length t \<and> list_all2 ignorecase q (take (length q) t)"
  by (induction q t rule: match_here.induct) auto

lemma occurs_at_match_here:
  "occurs_at q t i \<longleftrightarrow> i \<le> length t \<and> match_here q (drop i t)"
  by (auto simp: occurs_at_def match_here_iff)


lemma filter_upt_Nil: "filter P [0 ..< n] = [] \<longleftrightarrow> (\<forall>j < n. \<not> P j)"
  by (auto simp: filter_empty_conv)

lemma finditer_first:
  "(case finditer q t n of
      [] \<Rightarrow> \<forall>i \<le> length t. \<not> match_here q (drop i t)
    | m # _ \<Rightarrow> n \<le> m \<and> m - n \<le> length t \<and> match_here q (drop (m - n) t)
               \<and> (\<forall>i < m - n. \<not> match_here q (drop i t)))"
proof (induction q t n rule: finditer.induct)
  case (1 q n)
  then show ?case by (cases q) auto
next
  case (2 q c cs n)
  show ?case
  proof (cases "match_here q (c # cs)")
    case True
    then show ?thesis by simp
  next
    case False
    have eq: "finditer q (c # cs) n = finditer q cs (Suc n)"
      using False by simp
    have shift: "drop i (c # cs) = drop (i - 1) cs" if "0 < i" for i
      using that by (cases i) auto
    show ?thesis
    proof (cases "finditer q cs (Suc n)")
      case Nil
      with 2(3)[OF False] have no: "\<forall>i \<le> length cs. \<not> match_here q (drop i cs)"
        by simp
      have "\<not> match_here q (drop i (c # cs))" if "i \<le> length (c # cs)" for i
      proof (cases i)
        case 0
        then show ?thesis using False by simp
      next
        case (Suc k)
        then show ?thesis using no that by simp
      qed
      then show ?thesis using eq Nil by simp
    next
      case (Cons m ms)
      with 2(3)[OF False] have ih: "Suc n \<le> m" "m - Suc n \<le> length cs"
        "match_here q (drop (m - Suc n) cs)" "\<forall>i < m - Suc n. \<not> match_here q (drop i cs)"
        by simp_all
      have mn: "m - n = Suc (m - Suc n)" using ih(1) by simp
      have "\<not> match_here q (drop i (c # cs))" if "i < m - n" for i
      proof (cases i)
        case 0
        then show ?thesis using False by simp
      next
        case (Suc k)
        then have "k < m - Suc n" using that mn by simp
        then show ?thesis using ih(4) Suc by simp
      qed
      then show ?thesis using eq Cons ih mn by simp
    qed
  qed
qed

lemma finditer_occurrences_Nil:
  "finditer q t 0 = [] \<longleftrightarrow> occurrences q t = []"
proof
  assume "finditer q t 0 = []"
  with finditer_first[where q=q and t=t and n=0] have "\<forall>i \<le> length t. \<not> match_here q (drop i t)" by simp
  then show "occurrences q t = []"
    by (simp add: occurrences_def filter_empty_conv occurs_at_match_here less_Suc_eq_le del: upt_Suc)
next
  assume occ: "occurrences q t = []"
  show "finditer q t 0 = []"
  proof (cases "finditer q t 0")
    case Nil then show ?thesis .
  next
    case (Cons m ms)
    with finditer_first[where q=q and t=t and n=0] have "m \<le> length t" "match_here q (drop m t)" by simp_all
    then have "occurs_at q t m" by (simp add: occurs_at_match_here)
    then have "m \<in> set (occurrences q t)" using \<open>m \<le> length t\<close>
      by (simp add: occurrences_def less_Suc_eq_le del: upt_Suc)
    with occ show ?thesis by simp
  qed
qed


lemma py_slice_nonneg:
  "0 \<le> a \<Longrightarrow> 0 \<le> b \<Longrightarrow> py_slice xs a b = take (nat b - nat a) (drop (nat a) xs)"
  by (auto simp: py_slice_def slice_bound_def Let_def min_def)



lemma fallback_snippet_nonneg:
  assumes "0 \<le> w"
  shows "fallback_snippet t w =
      take (nat (2 * w)) t @ (if nat (2 * w) < length t then ellipsis else [])"
proof -
  have sl: "py_slice t 0 (w * 2) = take (nat (w * 2)) t"
    using assms py_slice_nonneg[of 0 "w * 2" t] by simp
  have lt: "w * 2 < int (length t) \<longleftrightarrow> nat (w * 2) < length t"
    using assms by linarith
  have "fallback_snippet t w =
      take (nat (w * 2)) t @ (if nat (w * 2) < length t then ellipsis else [])"
    unfolding fallback_snippet_def Let_def using sl lt by simp
  then show ?thesis by (simp add: mult.commute)
qed

lemma finditer_positions:
  "p \<in> set (finditer q t n) \<Longrightarrow> n \<le> p \<and> p - n \<le> length t \<and> match_here q (drop (p - n) t)"
proof (induction q t n rule: finditer.induct)
  case (1 q n)
  then show ?case by (auto split: if_splits)
next
  case (2 q c cs n)
  have step: "n \<le> p \<and> p - n \<le> length (c # cs) \<and> match_here q (drop (p - n) (c # cs))"
    if "Suc n \<le> p \<and> p - Suc n \<le> length cs \<and> match_here q (drop (p - Suc n) cs)"
  proof -
    have "p - n = Suc (p - Suc n)" using that by arith
    then show ?thesis using that by simp
  qed
  show ?case
  proof (cases "match_here q (c # cs)")
    case False
    with 2 show ?thesis by (intro step) simp
  next
    case True
    show ?thesis
    proof (cases "p = n")
      case True
      with \<open>match_here q (c # cs)\<close> show ?thesis by simp
    next
      case False
      show ?thesis
      proof (cases "q = []")
        case True
        with 2 \<open>match_here q (c # cs)\<close> \<open>p \<noteq> n\<close> show ?thesis by (intro step) simp
      next
        case False
        with "2.prems" \<open>match_here q (c # cs)\<close> \<open>p \<noteq> n\<close>
        have mem: "p \<in> set (finditer q (drop (length q) (c # cs)) (n + length q))"
          by simp
        from "2.IH"(2)[OF \<open>match_here q (c # cs)\<close> False mem]
        have ih1: "n + length q \<le> p"
          and ih2: "p - (n + length q) \<le> length (drop (length q) (c # cs))"
          and ih3: "match_here q (drop (p - (n + length q)) (drop (length q) (c # cs)))"
          by blast+
        have "p - (n + length q) + length q = p - n" using ih1 by arith
        then have "match_here q (drop (p - n) (c # cs))"
          using ih3 by (simp only: drop_drop)
        moreover have "length q \<le> length (c # cs)"
          using \<open>match_here q (c # cs)\<close> by (simp only: match_here_iff)
        then have "p - n \<le> length (c # cs)" using ih1 ih2 by simp
        ultimately show ?thesis using ih1 by simp
      qed
    qed
  qed
qed

lemma finditer_subset_occurrences: "set (finditer q t 0) \<subseteq> set (occurrences q t)"
proof
  fix p assume "p \<in> set (finditer q t 0)"
  from finditer_positions[OF this] have "p \<le> length t" "match_here q (drop p t)" by simp_all
  then show "p \<in> set (occurrences q t)"
    by (simp add: occurrences_def occurs_at_match_here less_Suc_eq_le del: upt_Suc)
qed

lemma finditer_lower: "p \<in> set (finditer q t n) \<Longrightarrow> n \<le> p"
  using finditer_positions by blast

lemma finditer_sorted: "sorted_wrt (<) (finditer q t n)"
proof (induction q t n rule: finditer.induct)
  case (1 q n)
  then show ?case by simp
next
  case (2 q c cs n)
  have a: "n < p" if "p \<in> set (finditer q cs (Suc n))" for p
    using finditer_lower[OF that] by simp
  have b: "n < p" if "q \<noteq> []" "p \<in> set (finditer q (drop (length q) (c # cs)) (n + length q))"
    for p using finditer_lower[OF that(2)] that(1) by (cases q) simp_all
  show ?case using 2 a b by auto
qed

lemma finditer_covers:
  "q \<noteq> [] \<Longrightarrow> i \<le> length t \<Longrightarrow> match_here q (drop i t)
    \<Longrightarrow> \<exists>p \<in> set (finditer q t n). p \<le> n + i \<and> n + i < p + length q"
proof (induction q t n arbitrary: i rule: finditer.induct)
  case (1 q n)
  then show ?case by (cases q) auto
next
  case (2 q c cs n)
  note q = \<open>q \<noteq> []\<close>
  show ?case
  proof (cases "match_here q (c # cs)")
    case False
    then obtain k where i: "i = Suc k" using "2.prems"(3) by (cases i) auto
    with "2.prems" have "k \<le> length cs" "match_here q (drop k cs)" by simp_all
    from "2.IH"(3)[OF False q this] obtain p where
      "p \<in> set (finditer q cs (Suc n))" "p \<le> Suc n + k" "Suc n + k < p + length q" by blast
    then show ?thesis using False i by auto
  next
    case True
    show ?thesis
    proof (cases "i < length q")
      case True
      then show ?thesis using \<open>match_here q (c # cs)\<close> q by auto
    next
      case False
      define k where "k = i - length q"
      have i: "i = k + length q" using False by (simp add: k_def)
      have "k \<le> length (drop (length q) (c # cs))" using "2.prems"(2) i by simp
      moreover have "match_here q (drop k (drop (length q) (c # cs)))"
        using "2.prems"(3) i by (simp only: drop_drop)
      ultimately obtain p where
        "p \<in> set (finditer q (drop (length q) (c # cs)) (n + length q))"
        "p \<le> n + length q + k" "n + length q + k < p + length q"
        using "2.IH"(2)[OF True q q] by blast
      moreover from this have "p \<in> set (finditer q (c # cs) n)" using True q by simp
      moreover have "n + length q + k = n + i" using i by simp
      ultimately show ?thesis by auto
    qed
  qed
qed

lemma wrap_at_skip:
  "\<forall>p \<in> set ps. n < p \<Longrightarrow> wrap_at k n ps (c # cs) = c # wrap_at k (Suc n) ps cs"
proof (cases ps)
  case Nil
  then show ?thesis by simp
next
  case (Cons p ps')
  assume "\<forall>p \<in> set ps. n < p"
  with Cons have "n < p" by simp
  then have "p - n = Suc (p - Suc n)" by simp
  then show ?thesis using Cons by simp
qed

lemma re_sub_wrap_at:
  "q \<noteq> [] \<Longrightarrow> re_sub q highlight_repl t = wrap_at (length q) n (finditer q t n) t"
proof (induction q t n rule: finditer.induct)
  case (1 q n)
  then show ?case by simp
next
  case (2 q c cs n)
  note q = \<open>q \<noteq> []\<close>
  show ?case
  proof (cases "match_here q (c # cs)")
    case True
    with "2.IH"(2)[OF True q q] q show ?thesis
      by (simp add: highlight_repl_def)
  next
    case False
    have "\<forall>p \<in> set (finditer q cs (Suc n)). n < p"
      using finditer_lower by fastforce
    from wrap_at_skip[OF this] "2.IH"(3)[OF False q] False show ?thesis by simp
  qed
qed

lemma strict_sorted_set_eq:
  "sorted_wrt (<) xs \<Longrightarrow> sorted_wrt (<) ys \<Longrightarrow> set xs = set ys \<Longrightarrow> xs = (ys :: nat list)"
  by (simp add: strict_sorted_equal)

lemma occurrences_sorted: "sorted_wrt (<) (occurrences q t)"
  unfolding occurrences_def by (rule sorted_wrt_filter) (simp del: upt_Suc)


section \<open>Facts about the batch indexer\<close>

declare py_range.simps [simp del]

lemma upt_0_Suc_Cons: "[0 ..< Suc c] = 0 # map Suc [0 ..< c]"
  by (simp add: upt_conv_Cons map_Suc_upt del: upt_Suc)

lemma ceil_div_step:
  fixes B i N :: nat
  assumes "0 < B" "i < N"
  shows "(N - i + B - 1) div B = Suc ((N - (i + B) + B - 1) div B)"
proof (cases "N - i \<le> B")
  case True
  then have "N - (i + B) = 0" by simp
  moreover have "(N - i + B - 1) div B = 1"
  proof -
    have "B \<le> N - i + B - 1" "N - i + B - 1 < 2 * B" using assms True by arith+
    then show ?thesis
      by (intro div_nat_eqI) simp_all
  qed
  ultimately show ?thesis using assms by simp
next
  case False
  define x where "x = N - (i + B) + B - 1"
  from False have "N - i + B - 1 = x + B" unfolding x_def by arith
  then have "(N - i + B - 1) div B = (x + B) div B" by (rule arg_cong)
  also have "\<dots> = Suc (x div B)" using assms(1) div_add_self2[of B x] by simp
  finally show ?thesis unfolding x_def .
qed

lemma py_range_eq:
  "0 < B \<Longrightarrow> py_range i N B = map (\<lambda>m. i + m * B) [0 ..< (N - i + B - 1) div B]"
proof (induction i N B rule: py_range.induct)
  case (1 i stop step)
  show ?case
  proof (cases "i < stop")
    case False
    then have "stop - i + step - 1 < step" using 1(2) by arith
    then show ?thesis using False by (simp add: py_range.simps[of i stop step])
  next
    case True
    have "py_range i stop step = i # py_range (i + step) stop step"
      using True 1(2) by (simp add: py_range.simps[of i stop step])
    also have "\<dots> = i # map (\<lambda>m. i + step + m * step) [0 ..< (stop - (i + step) + step - 1) div step]"
      using 1(1)[OF conjI[OF 1(2) True] 1(2)] by simp
    also have "\<dots> = map (\<lambda>m. i + m * step) [0 ..< Suc ((stop - (i + step) + step - 1) div step)]"
      by (simp only: upt_0_Suc_Cons) (simp add: comp_def add.assoc)
    finally show ?thesis using ceil_div_step[OF 1(2) True] by simp
  qed
qed

lemma index_file_step:
  "index_file fs ok ss tot (d, lg) (j, p) =
     (if ok j then d\<lparr>pending := pending d @ [row_of fs ss p]\<rparr> else d,
      lg @ file_log fs ok tot (j, p))"
  by (cases "fs p")
     (simp_all add: index_file_def read_file_content_sample_def row_of_def file_log_def)

lemma index_file_fold:
  "foldl (index_file fs ok ss tot) (d, lg) jps =
     (d\<lparr>pending := pending d
          @ map (\<lambda>(j, p). row_of fs ss p) (filter (\<lambda>(j, p). ok j) jps)\<rparr>,
      lg @ concat (map (file_log fs ok tot) jps))"
proof (induction jps arbitrary: d lg)
  case Nil
  show ?case by simp
next
  case (Cons jp jps)
  obtain j p where jp: "jp = (j, p)" by (cases jp)
  show ?case
    by (simp add: jp index_file_step Cons.IH)
qed

lemma index_batch_eq:
  "index_batch fs ok ss files B (d, lg) i =
     (\<lparr>committed = committed d @ pending d @ rows_of fs ok ss i (take B (drop i files)),
       pending = [], commit_count = Suc (commit_count d)\<rparr>,
      lg @ concat (map (file_log fs ok (length files))
                    (zip [i + 1 ..< i + 1 + length (take B (drop i files))]
                       (take B (drop i files))))
         @ [Committed_batch (i div B + 1) ((length files + B - 1) div B)])"
  by (simp add: index_batch_def Let_def index_file_fold commit_def rows_of_def)

lemma zip_upt_append:
  "zip [a ..< a + length (xs @ ys)] (xs @ ys) =
     zip [a ..< a + length xs] xs @ zip [a + length xs ..< a + length xs + length ys] ys"
proof -
  have "[a ..< a + length xs + length ys] =
      [a ..< a + length xs] @ [a + length xs ..< a + length xs + length ys]"
    by (rule upt_add_eq_append) simp
  moreover have "length [a ..< a + length xs] = length xs" by simp
  moreover have "a + length (xs @ ys) = a + length xs + length ys" by simp
  ultimately show ?thesis by (simp only: zip_append)
qed

lemma rows_of_append:
  "rows_of fs ok ss i (xs @ ys) = rows_of fs ok ss i xs @ rows_of fs ok ss (i + length xs) ys"
proof -
  have "i + length xs + 1 = i + 1 + length xs" by simp
  then show ?thesis
    by (simp only: rows_of_def zip_upt_append filter_append map_append)
qed

lemma rows_of_Nil: "rows_of fs ok ss i [] = []"
  by (simp add: rows_of_def)

lemma length_rows_of:
  "length (rows_of fs ok ss i files) = length (filter ok [i + 1 ..< i + 1 + length files])"
proof -
  let ?js = "[i + 1 ..< i + 1 + length files]"
  have "map fst (filter (\<lambda>(j, p). ok j) (zip ?js files)) = filter ok (map fst (zip ?js files))"
    by (simp add: filter_map comp_def case_prod_unfold)
  also have "map fst (zip ?js files) = ?js" by simp
  finally have "length (filter (\<lambda>(j, p). ok j) (zip ?js files)) = length (filter ok ?js)"
    by (metis length_map)
  then show ?thesis by (simp add: rows_of_def)
qed

lemma take_py_range:
  assumes "0 < B" "k \<le> (N + B - 1) div B"
  shows "take k (py_range 0 N B) = map (\<lambda>m. m * B) [0 ..< k]"
proof -
  have "take k (py_range 0 N B) = map (\<lambda>m. m * B) (take k [0 ..< (N + B - 1) div B])"
    using py_range_eq[OF assms(1), of 0 N] by (simp add: take_map)
  also have "take k [0 ..< (N + B - 1) div B] = [0 ..< k]"
    using assms(2) by (simp add: take_upt)
  finally show ?thesis .
qed

lemma length_py_range: "0 < B \<Longrightarrow> length (py_range 0 N B) = (N + B - 1) div B"
  using py_range_eq[of B 0 N] by simp

lemma after_batches_0: "after_batches fs ok ss files B s 0 = s"
  by (simp add: after_batches_def)

lemma after_batches_Suc:
  assumes "0 < B" "Suc k \<le> (length files + B - 1) div B"
  shows "after_batches fs ok ss files B s (Suc k) =
     index_batch fs ok ss files B (after_batches fs ok ss files B s k) (k * B)"
proof -
  have k: "k \<le> (length files + B - 1) div B" using assms(2) by simp
  show ?thesis
    unfolding after_batches_def take_py_range[OF assms] take_py_range[OF assms(1) k]
    by simp
qed

lemma after_batches_all:
  assumes "0 < B"
  shows "after_batches fs ok ss files B s ((length files + B - 1) div B) =
     foldl (index_batch fs ok ss files B) s (py_range 0 (length files) B)"
proof -
  have "take ((length files + B - 1) div B) (py_range 0 (length files) B)
      = py_range 0 (length files) B"
    using length_py_range[OF assms, of "length files"] by (intro take_all) simp
  then show ?thesis by (simp only: after_batches_def)
qed

lemma round_in_range:
  fixes B k N :: nat
  assumes "0 < B" "Suc k \<le> (N + B - 1) div B"
  shows "k * B < N"
proof -
  have "Suc k * B \<le> N + B - 1"
    using assms by (simp only: less_eq_div_iff_mult_less_eq)
  then have "k * B + B \<le> N + B - 1" by simp
  then show ?thesis using assms(1) by arith
qed

lemma rounds_cover:
  fixes B N :: nat
  assumes "0 < B"
  shows "N \<le> ((N + B - 1) div B) * B"
proof -
  define x where "x = N + B - 1"
  have "x = (x div B) * B + x mod B" by simp
  moreover have "x mod B < B" using assms by simp
  ultimately have "x < (x div B) * B + B" by arith
  then show ?thesis unfolding x_def using assms by arith
qed

lemma after_batches_db:
  assumes "0 < B"
  shows "Suc k \<le> (length files + B - 1) div B \<Longrightarrow>
     fst (after_batches fs ok ss files B (d, lg) (Suc k)) =
       \<lparr>committed = committed d @ pending d @ rows_of fs ok ss 0 (take (Suc k * B) files),
        pending = [], commit_count = commit_count d + Suc k\<rparr>"
proof (induction k)
  case 0
  show ?case
    by (simp add: after_batches_Suc[OF assms 0] after_batches_0 index_batch_eq)
next
  case (Suc k)
  then have k: "Suc k \<le> (length files + B - 1) div B" by simp
  obtain dk lgk where s: "after_batches fs ok ss files B (d, lg) (Suc k) = (dk, lgk)"
    by (cases "after_batches fs ok ss files B (d, lg) (Suc k)")
  from Suc.IH[OF k] s have dk:
    "dk = \<lparr>committed = committed d @ pending d @ rows_of fs ok ss 0 (take (Suc k * B) files),
          pending = [], commit_count = commit_count d + Suc k\<rparr>" by simp
  have lt: "Suc k * B < length files" using round_in_range[OF assms Suc.prems] .
  have len: "length (take (Suc k * B) files) = Suc k * B" using lt by simp
  have "take (Suc (Suc k) * B) files
      = take (Suc k * B) files @ take B (drop (Suc k * B) files)"
    using take_add[of "Suc k * B" B files] by (simp add: add.commute)
  then have rows: "rows_of fs ok ss 0 (take (Suc (Suc k) * B) files)
      = rows_of fs ok ss 0 (take (Suc k * B) files)
        @ rows_of fs ok ss (Suc k * B) (take B (drop (Suc k * B) files))"
    using rows_of_append[of fs ok ss 0 "take (Suc k * B) files"] len by simp
  show ?case
    unfolding after_batches_Suc[OF assms Suc.prems] s index_batch_eq
    by (simp only: fst_conv dk rows) simp
qed

lemma index_batch_log_mono: "set lg \<subseteq> set (snd (index_batch fs ok ss files B (d, lg) i))"
  unfolding index_batch_eq snd_conv set_append by blast

lemma index_batch_logs:
  assumes "i \<le> m" "m < i + B" "m < length files"
  shows "(fs (files ! m) = None \<longrightarrow>
            Error_reading_file (files ! m) \<in> set (snd (index_batch fs ok ss files B (d, lg) i)))
       \<and> (\<not> ok (Suc m) \<longrightarrow>
            Error_processing (files ! m) \<in> set (snd (index_batch fs ok ss files B (d, lg) i)))"
proof -
  define batch where "batch = take B (drop i files)"
  define js where "js = [i + 1 ..< i + 1 + length batch]"
  have "m - i < length files - i" "m - i < B" using assms by arith+
  then have n: "m - i < length batch" by (simp add: batch_def)
  then have njs: "m - i < length js" by (simp add: js_def)
  have "js ! (m - i) = i + 1 + (m - i)" unfolding js_def using n by (intro nth_upt) simp
  then have j: "js ! (m - i) = Suc m" using assms(1) by simp
  have b: "batch ! (m - i) = files ! m" using n assms by (simp add: batch_def)
  have "(Suc m, files ! m) \<in> set (zip js batch)"
    unfolding in_set_zip using j b n njs by (intro exI[of _ "m - i"]) simp
  then have "set (file_log fs ok (length files) (Suc m, files ! m))
      \<subseteq> set (snd (index_batch fs ok ss files B (d, lg) i))"
    unfolding index_batch_eq js_def batch_def by auto
  then show ?thesis by (auto simp: file_log_def)
qed

lemma after_batches_log_mono:
  assumes "0 < B"
  shows "k \<le> (length files + B - 1) div B \<Longrightarrow>
     set lg \<subseteq> set (snd (after_batches fs ok ss files B (d, lg) k))"
proof (induction k)
  case 0
  show ?case by (simp add: after_batches_0)
next
  case (Suc k)
  then have k: "k \<le> (length files + B - 1) div B" by simp
  obtain dk lgk where s: "after_batches fs ok ss files B (d, lg) k = (dk, lgk)"
    by (cases "after_batches fs ok ss files B (d, lg) k")
  from Suc.IH[OF k] s have "set lg \<subseteq> set lgk" by simp
  with index_batch_log_mono[of lgk fs ok ss files B dk "k * B"] show ?case
    unfolding after_batches_Suc[OF assms Suc.prems] s by blast
qed

lemma after_batches_logs:
  assumes "0 < B"
  shows "k \<le> (length files + B - 1) div B \<Longrightarrow> m < k * B \<Longrightarrow> m < length files \<Longrightarrow>
     (fs (files ! m) = None \<longrightarrow>
        Error_reading_file (files ! m) \<in> set (snd (after_batches fs ok ss files B (d, lg) k)))
     \<and> (\<not> ok (Suc m) \<longrightarrow>
        Error_processing (files ! m) \<in> set (snd (after_batches fs ok ss files B (d, lg) k)))"
proof (induction k)
  case 0
  then show ?case by simp
next
  case (Suc k)
  then have k: "k \<le> (length files + B - 1) div B" by simp
  obtain dk lgk where s: "after_batches fs ok ss files B (d, lg) k = (dk, lgk)"
    by (cases "after_batches fs ok ss files B (d, lg) k")
  have step: "after_batches fs ok ss files B (d, lg) (Suc k) =
      index_batch fs ok ss files B (dk, lgk) (k * B)"
    unfolding after_batches_Suc[OF assms Suc.prems(1)] s ..
  show ?case
  proof (cases "m < k * B")
    case True
    from Suc.IH[OF k True Suc.prems(3)] s
    have "(fs (files ! m) = None \<longrightarrow> Error_reading_file (files ! m) \<in> set lgk)
        \<and> (\<not> ok (Suc m) \<longrightarrow> Error_processing (files ! m) \<in> set lgk)" by simp
    with index_batch_log_mono[of lgk fs ok ss files B dk "k * B"] show ?thesis
      unfolding step by blast
  next
    case False
    then have "k * B \<le> m" "m < k * B + B" using Suc.prems(2) by simp_all
    from index_batch_logs[OF this Suc.prems(3)] show ?thesis unfolding step .
  qed
qed

lemma index_text_files_eq:
  assumes "0 < batch_size"
  shows "index_text_files fs ok dir files batch_size ss d =
     Inr (PyNone,
          fst (after_batches fs ok ss files (nat batch_size)
                 (d, [Indexing_from dir, Found_files (length files)])
                 ((length files + nat batch_size - 1) div nat batch_size)),
          snd (after_batches fs ok ss files (nat batch_size)
                 (d, [Indexing_from dir, Found_files (length files)])
                 ((length files + nat batch_size - 1) div nat batch_size))
            @ [Indexing_complete (length files)])"
proof -
  have B: "0 < nat batch_size" using assms by simp
  have loop: "foldl (index_batch fs ok ss files (nat batch_size)) s
        (py_range 0 (length files) (nat batch_size))
      = after_batches fs ok ss files (nat batch_size) s
          ((length files + nat batch_size - 1) div nat batch_size)" for s
    by (rule after_batches_all[OF B, symmetric])
  show ?thesis
    using assms
    by (simp add: index_text_files_def Let_def case_prod_unfold loop)
qed

lemma index_text_files_rows:
  assumes "0 < B"
  shows "committed (fst (after_batches fs ok ss files B (d, lg) ((length files + B - 1) div B)))
       @ pending (fst (after_batches fs ok ss files B (d, lg) ((length files + B - 1) div B)))
     = committed d @ pending d @ rows_of fs ok ss 0 files"
proof (cases "(length files + B - 1) div B")
  case 0
  with rounds_cover[OF assms, of "length files"] have "files = []" by simp
  then show ?thesis using 0 by (simp add: after_batches_0 rows_of_Nil)
next
  case (Suc k)
  have "length files \<le> Suc k * B" using rounds_cover[OF assms, of "length files"] Suc by simp
  then have "take (Suc k * B) files = files" by simp
  then show ?thesis
    using after_batches_db[OF assms, of k files fs ok ss d lg] Suc by simp
qed

lemma index_text_files_db:
  assumes "0 < B" "files \<noteq> []"
  shows "fst (after_batches fs ok ss files B (d, lg) ((length files + B - 1) div B)) =
       \<lparr>committed = committed d @ pending d @ rows_of fs ok ss 0 files,
        pending = [],
        commit_count = commit_count d + (length files + B - 1) div B\<rparr>"
proof (cases "(length files + B - 1) div B")
  case 0
  with rounds_cover[OF assms(1), of "length files"] assms(2) show ?thesis by simp
next
  case (Suc k)
  have "length files \<le> Suc k * B"
    using rounds_cover[OF assms(1), of "length files"] Suc by simp
  then have "take (Suc k * B) files = files" by simp
  then show ?thesis
    using after_batches_db[OF assms(1), of k files fs ok ss d lg] Suc by simp
qed

lemma row_of_in_rows_of:
  assumes "m < length files" "ok (Suc m)"
  shows "row_of fs ss (files ! m) \<in> set (rows_of fs ok ss 0 files)"
proof -
  have "[0 + 1 ..< 0 + 1 + length files] ! m = 0 + 1 + m" using assms(1) by (intro nth_upt) simp
  then have "(Suc m, files ! m) \<in> set (zip [0 + 1 ..< 0 + 1 + length files] files)"
    unfolding in_set_zip using assms(1) by (intro exI[of _ m]) simp
  then have "(Suc m, files ! m)
      \<in> set (filter (\<lambda>(j, p). ok j) (zip [0 + 1 ..< 0 + 1 + length files] files))"
    using assms(2) by simp
  then have "(\<lambda>(j, p). row_of fs ss p) (Suc m, files ! m) \<in> set (rows_of fs ok ss 0 files)"
    unfolding rows_of_def set_map by (rule imageI)
  then show ?thesis by simp
qed


section \<open>Facts about the search operations and the image route\<close>

lemma process_row_stale:
  assumes "fs (hit_filepath h) = None" "hit_content h = Some sample"
  shows "process_row fs query w h =
     (Inr \<lparr>file_path = hit_filepath h, file_name = hit_filename h,
           snippet = highlight query (fst (extract_snippet sample query w)),
           rank = hit_rank h,
           content_preview = content_preview_of sample\<rparr>,
      [Error_reading_full_content (hit_filepath h)])"
  using assms by (simp add: process_row_def)

lemma full_results_stale:
  assumes "fs (hit_filepath h) = None"
  shows "full_results fs [h] =
     ([(hit_filename h, hit_filepath h, [], hit_rank h)], [Error_loading_file (hit_filepath h)])"
  using assms by (simp add: load_full_content_def)

lemma search_database_no_connection:
  "search_database False engine fs query w st = Inl DatabaseError"
  by (simp add: search_database_def)

lemma view_image_not_digits:
  "\<not> isdigit dir_num \<Longrightarrow> view_image isfile dir_num filename = Status_400 ''Invalid directory''"
  by (simp add: view_image_def)

lemma view_image_not_decimal:
  "isdigit dir_num \<Longrightarrow> \<not> list_all isdecimal_char dir_num
    \<Longrightarrow> view_image isfile dir_num filename = Unhandled ValueError"
  by (simp add: view_image_def py_int_def)

lemma isdecimal_isdigit: "isdecimal_char c \<Longrightarrow> isdigit_char c"
  by (simp add: isdecimal_char_def isdigit_char_def Let_def)

lemma view_image_decimal:
  assumes "dir_num \<noteq> []" "list_all isdecimal_char dir_num"
  shows "(\<exists>msg. view_image isfile dir_num filename = Status_400 msg) \<longleftrightarrow>
     (py_int dir_num \<notin> Inr ` {1 .. 12}
      \<or> str_contains ''..'' filename \<or> startswith filename ''/'')"
proof -
  have d: "isdigit dir_num"
    using assms isdecimal_isdigit by (auto simp: isdigit_def list_all_iff)
  obtain n where n: "py_int dir_num = Inr n" using assms by (simp add: py_int_def)
  show ?thesis
    using d by (auto simp: view_image_def n Let_def)
qed

lemma view_image_examples:
  "view_image isfile ''000'' ''photo.jpg'' = Status_400 ''Invalid directory''"
  "view_image isfile ''13'' ''photo.jpg'' = Status_400 ''Invalid directory''"
  "view_image isfile ''abc'' ''photo.jpg'' = Status_400 ''Invalid directory''"
  "view_image isfile ''-1'' ''photo.jpg'' = Status_400 ''Invalid directory''"
  "view_image isfile ''001'' ''../../etc/passwd'' = Status_400 ''Invalid filename''"
  "view_image isfile ''001'' ''/etc/passwd'' = Status_400 ''Invalid filename''"
  "\<forall>d \<in> set [''001'', ''002'', ''003'', ''004'', ''005'', ''006'', ''007'', ''008'', ''009'',
               ''010'', ''011'', ''012''].
     view_image isfile d ''photo.jpg'' =
       (if isfile (''/home/jon/Documents/Epstein dump nov 12/'' @ d @ ''/photo.jpg'')
        then Send_file (''/home/jon/Documents/Epstein dump nov 12/'' @ d @ ''/photo.jpg'')
        else Status_404 ''File not found'')"
  by (simp_all add: view_image_def isdigit_def isdigit_char_def py_int_def isdecimal_char_def
      str_contains_def startswith_def os_path_join_def Let_def)


section \<open>Query construction\<close>




section \<open>Snippets\<close>




text \<open>
  Claim C3. When the query occurs nowhere in the text and the window \<open>w\<close> is not negative,
  the snippet is the first \<open>2 * w\<close> characters of the text, followed by the ellipsis
  exactly when the text is longer than that; and the row of a readable document is turned
  into a result, without an exception.
\<close>

theorem snippet_fallback:
  assumes "occurrences query full_content = []" and "0 \<le> w"
  shows "extract_snippet full_content query w =
       (take (nat (2 * w)) full_content
          @ (if nat (2 * w) < length full_content then ellipsis else []), False)
     \<and> (fs (hit_filepath h) = Some full_content \<longrightarrow>
          process_row fs query w h =
            (Inr \<lparr>file_path = hit_filepath h, file_name = hit_filename h,
                  snippet = highlight query
                    (take (nat (2 * w)) full_content
                       @ (if nat (2 * w) < length full_content then ellipsis else [])),
                  rank = hit_rank h,
                  content_preview = content_preview_of full_content\<rparr>, []))"
proof -
  from assms(1) have fi: "finditer query full_content 0 = []"
    by (simp add: finditer_occurrences_Nil)
  have ex: "extract_snippet full_content query w =
       (take (nat (2 * w)) full_content
          @ (if nat (2 * w) < length full_content then ellipsis else []), False)"
    by (simp add: extract_snippet_def fi fallback_snippet_nonneg[OF assms(2)])
  show ?thesis
    by (simp add: ex process_row_def)
qed

theorem snippet_fallback_witness:
  "occurrences ''zzz'' ''Hello The theory of things'' = [] \<and> (0::int) \<le> 3
   \<and> sample_fs (hit_filepath sample_hit) = Some ''Hello The theory of things''
   \<and> extract_snippet ''Hello The theory of things'' ''zzz'' 3 = (''Hello ...'', False)
   \<and> process_row sample_fs ''zzz'' 3 sample_hit =
       (Inr \<lparr>file_path = ''/TEXT/001/a.txt'', file_name = ''a.txt'',
             snippet = ''Hello ...'', rank = - 1,
             content_preview = ''Hello The theory of things''\<rparr>, [])"
proof -
  have occ: "occurrences ''zzz'' ''Hello The theory of things'' = []"
    by code_simp
  have w: "(0::int) \<le> 3" by simp
  have f: "sample_fs (hit_filepath sample_hit) = Some ''Hello The theory of things''"
    by (simp add: sample_fs_def sample_hit_def)
  have hl: "highlight ''zzz'' ''Hello ...'' = ''Hello ...''"
    by code_simp
  have pv: "content_preview_of ''Hello The theory of things'' = ''Hello The theory of things''"
    by code_simp
  show ?thesis
    using occ f snippet_fallback [OF occ w, of sample_fs sample_hit]
    by (simp add: ellipsis_def hl pv sample_hit_def)
qed


section \<open>Highlighting\<close>

text \<open>
  Claim C4, as stated: every occurrence of the query in the snippet, up to case, is put
  between the highlight markers. It fails where occurrences overlap: the query \<open>aa\<close>
  occurs in \<open>aaa\<close> at positions 0 and 1, and only the occurrence at 0 is marked.
\<close>

theorem highlight_overlap_counterexample:
  "1 \<in> set (occurrences ''aa'' ''aaa'') \<and> 1 \<notin> set (finditer ''aa'' ''aaa'' 0)
   \<and> highlight ''aa'' ''aaa'' = ''<span class=\"highlight\">aa</span>a''"
  by code_simp

text \<open>
  Claim C4, amended. For a query that is not empty, the highlighted snippet is the snippet
  with the occurrences found by the scan from the left put between the markers, each in
  its own casing. Every position so marked is an occurrence of the query up to case;
  every occurrence is marked or begins inside a marked occurrence to its left; and when no
  two occurrences overlap, every occurrence is marked.
\<close>

theorem highlight_wraps_scanned_occurrences:
  assumes "query \<noteq> []"
  shows "highlight query s = wrap_at (length query) 0 (finditer query s 0) s
    \<and> set (finditer query s 0) \<subseteq> set (occurrences query s)
    \<and> (\<forall>i \<in> set (occurrences query s).
          \<exists>p \<in> set (finditer query s 0). p \<le> i \<and> i < p + length query)
    \<and> ((\<forall>i \<in> set (occurrences query s). \<forall>j \<in> set (occurrences query s).
            i < j \<longrightarrow> i + length query \<le> j)
         \<longrightarrow> finditer query s 0 = occurrences query s)"
proof (intro conjI ballI impI)
  show "highlight query s = wrap_at (length query) 0 (finditer query s 0) s"
    unfolding highlight_def using assms by (rule re_sub_wrap_at)
  show "set (finditer query s 0) \<subseteq> set (occurrences query s)"
    by (rule finditer_subset_occurrences)
  show cover: "\<exists>p \<in> set (finditer query s 0). p \<le> i \<and> i < p + length query"
    if "i \<in> set (occurrences query s)" for i
  proof -
    from that have "i \<le> length s" "match_here query (drop i s)"
      by (simp_all add: occurrences_def occurs_at_match_here del: upt_Suc)
    from finditer_covers[OF assms this, of 0] show ?thesis by simp
  qed
  show "finditer query s 0 = occurrences query s"
    if apart: "\<forall>i \<in> set (occurrences query s). \<forall>j \<in> set (occurrences query s).
            i < j \<longrightarrow> i + length query \<le> j"
  proof -
    have "set (occurrences query s) \<subseteq> set (finditer query s 0)"
    proof
      fix i assume i: "i \<in> set (occurrences query s)"
      from cover[OF i] obtain p where p: "p \<in> set (finditer query s 0)" "p \<le> i"
        "i < p + length query" by blast
      then have "p \<in> set (occurrences query s)" using finditer_subset_occurrences by blast
      with apart i p(2,3) have "p = i" by (cases "p < i") fastforce+
      with p(1) show "i \<in> set (finditer query s 0)" by simp
    qed
    with finditer_subset_occurrences have "set (finditer query s 0) = set (occurrences query s)"
      by blast
    then show ?thesis
      by (rule strict_sorted_set_eq[OF finditer_sorted occurrences_sorted])
  qed
qed

theorem highlight_wraps_scanned_occurrences_witness:
  "''the'' \<noteq> [] \<and> occurrences ''the'' ''The theory'' = [0, 4]
   \<and> finditer ''the'' ''The theory'' 0 = [0, 4]
   \<and> highlight ''the'' ''The theory'' =
       ''<span class=\"highlight\">The</span> <span class=\"highlight\">the</span>ory''"
proof -
  have q: "''the'' \<noteq> []" by simp
  have occ: "occurrences ''the'' ''The theory'' = [0, 4]" by code_simp
  have apart: "\<forall>i \<in> set (occurrences ''the'' ''The theory'').
      \<forall>j \<in> set (occurrences ''the'' ''The theory''). i < j \<longrightarrow> i + length ''the'' \<le> j"
    by (simp add: occ)
  from highlight_wraps_scanned_occurrences [OF q, of "''The theory''"] apart
  have fi: "finditer ''the'' ''The theory'' 0 = occurrences ''the'' ''The theory''"
    and hl: "highlight ''the'' ''The theory'' =
      wrap_at (length ''the'') 0 (finditer ''the'' ''The theory'' 0) ''The theory''"
    by blast+
  have "highlight ''the'' ''The theory'' = wrap_at (length ''the'') 0 [0, 4] ''The theory''"
    using hl by (simp only: fi occ)
  also have "\<dots> = ''<span class=\"highlight\">The</span> <span class=\"highlight\">the</span>ory''"
    by code_simp
  finally show ?thesis
    using q occ fi by simp
qed


section \<open>Stale paths\<close>

text \<open>
  Claim C5: a hit whose file can no longer be read still yields a result, with the indexed
  sample as its content. The web search does so. The three command-line operations return
  the hit with the empty string as content, although the row they read carries the sample.
\<close>

theorem stale_path_cli_content_empty:
  "hit_content stale_hit = Some ''Paris is lovely''
   \<and> search_content_only stale_engine Map.empty ''Paris'' 10000 =
       Inr ([(''b.txt'', ''/TEXT/001/b.txt'', [], - 2)],
            [Error_loading_file ''/TEXT/001/b.txt''])
   \<and> search_filename_only stale_engine Map.empty ''Paris'' 10000 =
       Inr ([(''b.txt'', ''/TEXT/001/b.txt'', [], - 2)],
            [Error_loading_file ''/TEXT/001/b.txt''])
   \<and> search stale_engine Map.empty ''Paris'' 10000 =
       Inr ([(''b.txt'', ''/TEXT/001/b.txt'', [], - 2)],
            [Error_loading_file ''/TEXT/001/b.txt''])
   \<and> search_database True stale_engine Map.empty ''Paris'' 1000 ''content'' =
       Inr ([\<lparr>file_path = ''/TEXT/001/b.txt'', file_name = ''b.txt'',
              snippet = ''<span class=\"highlight\">Paris</span> is lovely'',
              rank = - 2, content_preview = ''Paris is lovely''\<rparr>],
            Closed, [Error_reading_full_content ''/TEXT/001/b.txt''])"
  by code_simp


section \<open>The batch indexer: result, failures, commits\<close>

text \<open>
  Claim C6, as stated: the value returned by \<open>index_text_files\<close> is the number of
  documents indexed. It fails: the function returns no value. In a run over five documents
  of which the third is refused by the store, four records are inserted, nothing is
  returned, and the closing message reports five.
\<close>

theorem index_returns_none_counterexample:
  "index_text_files sample_fs reject_third ''/TEXT'' five_files 2 10240 empty_db =
     Inr (PyNone,
          \<lparr>committed =
             [(''a.txt'', ''/TEXT/001/a.txt'', ''Hello The theory of things''),
              (''b.txt'', ''/TEXT/001/b.txt'', []),
              (''d.txt'', ''/TEXT/002/d.txt'', []),
              (''e.txt'', ''/TEXT/002/e.txt'', [])],
            pending = [], commit_count = 3\<rparr>,
          [Indexing_from ''/TEXT'', Found_files 5,
           Error_reading_file ''/TEXT/001/b.txt'', Committed_batch 1 3,
           Error_reading_file ''/TEXT/001/c.txt'', Error_processing ''/TEXT/001/c.txt'',
           Error_reading_file ''/TEXT/002/d.txt'', Committed_batch 2 3,
           Error_reading_file ''/TEXT/002/e.txt'', Indexed_progress 5 5, Committed_batch 3 3,
           Indexing_complete 5])
   \<and> PyNone \<noteq> PyInt 4"
  by code_simp

text \<open>
  Claim C6, amended. For a positive batch size \<open>index_text_files\<close> returns no value; the
  number of documents indexed by the run is the growth of \<open>count_files\<close>, which is the
  number of documents whose insertion went through, and the closing message reports the
  number of documents enumerated.
\<close>

theorem index_returns_none_and_counts:
  assumes "0 < batch_size"
  shows "\<exists>d' lg. index_text_files fs ok dir files batch_size ss d =
           Inr (PyNone, d', lg @ [Indexing_complete (length files)])
        \<and> count_files d' = count_files d + length (filter ok [1 ..< Suc (length files)])"
proof -
  have B: "0 < nat batch_size" using assms by simp
  let ?s = "after_batches fs ok ss files (nat batch_size)
              (d, [Indexing_from dir, Found_files (length files)])
              ((length files + nat batch_size - 1) div nat batch_size)"
  have "length (committed (fst ?s) @ pending (fst ?s))
      = length (committed d @ pending d @ rows_of fs ok ss 0 files)"
    by (simp only: index_text_files_rows[OF B])
  then have "count_files (fst ?s) = count_files d + length (filter ok [1 ..< Suc (length files)])"
    by (simp add: count_files_def length_rows_of)
  then show ?thesis
    using index_text_files_eq[OF assms, of fs ok dir files ss d] by blast
qed

theorem index_returns_none_and_counts_witness:
  "(0::int) < 2
   \<and> (\<exists>d' lg. index_text_files sample_fs reject_third ''/TEXT'' five_files 2 10240 empty_db =
           Inr (PyNone, d', lg @ [Indexing_complete 5])
        \<and> count_files d' = 4)"
proof -
  have b: "(0::int) < 2" by simp
  have n: "length five_files = 5" by (simp add: five_files_def)
  have c: "length (filter reject_third [1 ..< Suc 5]) = 4" by code_simp
  have e: "count_files empty_db = 0" by (simp add: count_files_def empty_db_def)
  show ?thesis
    using b index_returns_none_and_counts
      [OF b, of sample_fs reject_third "''/TEXT''" five_files 10240 empty_db]
    unfolding n c e by simp
qed


text \<open>
  Claim C7, as stated: a document whose read fails is skipped, no record being inserted
  for it. It fails: the reader catches the failure itself and yields the empty sample, and
  the record is inserted with it.
\<close>

theorem unreadable_document_indexed_counterexample:
  "index_text_files Map.empty accept_all ''/TEXT'' [''/TEXT/001/a.txt''] 100 10240 empty_db =
     Inr (PyNone,
          \<lparr>committed = [(''a.txt'', ''/TEXT/001/a.txt'', [])], pending = [],
            commit_count = 1\<rparr>,
          [Indexing_from ''/TEXT'', Found_files 1, Error_reading_file ''/TEXT/001/a.txt'',
           Indexed_progress 1 1, Committed_batch 1 1, Indexing_complete 1])"
  by code_simp

text \<open>
  Claim C7, amended. For a positive batch size the run never aborts. A document whose read
  fails is logged and inserted with an empty sample; a document whose insertion fails is
  logged and gets no record; the documents after either are processed as usual, so that
  the table grows by the records of exactly the documents whose insertion went through.
  Every batch is committed: when there is a document at all, nothing is pending at the
  end, the records are among the committed rows, and the number of commits has grown by
  the number of batches.
\<close>

theorem indexing_continues_after_failures:
  assumes "0 < batch_size"
  shows "\<exists>d' lg. index_text_files fs ok dir files batch_size ss d = Inr (PyNone, d', lg)
        \<and> committed d' @ pending d' = committed d @ pending d @ rows_of fs ok ss 0 files
        \<and> (files \<noteq> [] \<longrightarrow>
              pending d' = []
              \<and> committed d' = committed d @ pending d @ rows_of fs ok ss 0 files
              \<and> commit_count d' =
                  commit_count d + (length files + nat batch_size - 1) div nat batch_size)
        \<and> (\<forall>m < length files.
              (fs (files ! m) = None \<longrightarrow>
                 Error_reading_file (files ! m) \<in> set lg
                 \<and> (ok (Suc m) \<longrightarrow>
                      (basename (files ! m), files ! m, []) \<in> set (committed d' @ pending d')))
              \<and> (\<not> ok (Suc m) \<longrightarrow> Error_processing (files ! m) \<in> set lg))"
proof -
  have B: "0 < nat batch_size" using assms by simp
  define C where "C = (length files + nat batch_size - 1) div nat batch_size"
  define s where "s = after_batches fs ok ss files (nat batch_size)
              (d, [Indexing_from dir, Found_files (length files)]) C"
  have run: "index_text_files fs ok dir files batch_size ss d =
      Inr (PyNone, fst s, snd s @ [Indexing_complete (length files)])"
    unfolding s_def C_def by (rule index_text_files_eq[OF assms])
  have rows: "committed (fst s) @ pending (fst s)
      = committed d @ pending d @ rows_of fs ok ss 0 files"
    unfolding s_def C_def by (rule index_text_files_rows[OF B])
  have db: "pending (fst s) = []
      \<and> committed (fst s) = committed d @ pending d @ rows_of fs ok ss 0 files
      \<and> commit_count (fst s) = commit_count d + C" if "files \<noteq> []"
    unfolding s_def C_def index_text_files_db[OF B that] by simp
  have logs: "(fs (files ! m) = None \<longrightarrow>
                 Error_reading_file (files ! m) \<in> set (snd s @ [Indexing_complete (length files)])
                 \<and> (ok (Suc m) \<longrightarrow>
                      (basename (files ! m), files ! m, []) \<in> set (committed (fst s) @ pending (fst s))))
              \<and> (\<not> ok (Suc m) \<longrightarrow>
                 Error_processing (files ! m) \<in> set (snd s @ [Indexing_complete (length files)]))"
    if m: "m < length files" for m
  proof -
    have "m < C * nat batch_size"
      using rounds_cover[OF B, of "length files"] m unfolding C_def by simp
    from after_batches_logs[OF B _ this m, of fs ok ss d "[Indexing_from dir, Found_files (length files)]"]
    have l: "(fs (files ! m) = None \<longrightarrow> Error_reading_file (files ! m) \<in> set (snd s))
        \<and> (\<not> ok (Suc m) \<longrightarrow> Error_processing (files ! m) \<in> set (snd s))"
      unfolding s_def C_def by simp
    have "(basename (files ! m), files ! m, []) \<in> set (committed (fst s) @ pending (fst s))"
      if "fs (files ! m) = None" "ok (Suc m)"
    proof -
      have "row_of fs ss (files ! m) = (basename (files ! m), files ! m, [])"
        using that(1) by (simp add: row_of_def)
      with row_of_in_rows_of[where m=m and files=files and ok=ok and fs=fs and ss=ss, OF m that(2)]
      show ?thesis
        unfolding rows by simp
    qed
    with l show ?thesis by simp
  qed
  show ?thesis
    using run rows db logs unfolding C_def by blast
qed


theorem indexing_continues_after_failures_witness:
  "(0::int) < 2 \<and> five_files \<noteq> []
   \<and> (\<exists>d' lg. index_text_files sample_fs reject_third ''/TEXT'' five_files 2 10240 empty_db
                 = Inr (PyNone, d', lg)
        \<and> pending d' = []
        \<and> committed d' =
            [(''a.txt'', ''/TEXT/001/a.txt'', ''Hello The theory of things''),
             (''b.txt'', ''/TEXT/001/b.txt'', []),
             (''d.txt'', ''/TEXT/002/d.txt'', []),
             (''e.txt'', ''/TEXT/002/e.txt'', [])]
        \<and> commit_count d' = 3
        \<and> Error_reading_file ''/TEXT/001/b.txt'' \<in> set lg
        \<and> (''b.txt'', ''/TEXT/001/b.txt'', []) \<in> set (committed d' @ pending d')
        \<and> Error_processing ''/TEXT/001/c.txt'' \<in> set lg)"
proof -
  have b: "(0::int) < 2" by simp
  have ne: "five_files \<noteq> []" by (simp add: five_files_def)
  from indexing_continues_after_failures
    [OF b, of sample_fs reject_third "''/TEXT''" five_files 10240 empty_db] ne
  obtain d' lg where
    run: "index_text_files sample_fs reject_third ''/TEXT'' five_files 2 10240 empty_db
            = Inr (PyNone, d', lg)"
    and pend: "pending d' = []"
    and rows: "committed d'
            = committed empty_db @ pending empty_db
              @ rows_of sample_fs reject_third 10240 0 five_files"
    and cnt: "commit_count d' = commit_count empty_db + (length five_files + nat 2 - 1) div nat 2"
    and logs: "\<forall>m < length five_files.
              (sample_fs (five_files ! m) = None \<longrightarrow>
                 Error_reading_file (five_files ! m) \<in> set lg
                 \<and> (reject_third (Suc m) \<longrightarrow>
                      (basename (five_files ! m), five_files ! m, [])
                        \<in> set (committed d' @ pending d')))
              \<and> (\<not> reject_third (Suc m) \<longrightarrow> Error_processing (five_files ! m) \<in> set lg)"
    by blast
  have r: "committed empty_db @ pending empty_db
        @ rows_of sample_fs reject_third 10240 0 five_files =
      [(''a.txt'', ''/TEXT/001/a.txt'', ''Hello The theory of things''),
       (''b.txt'', ''/TEXT/001/b.txt'', []),
       (''d.txt'', ''/TEXT/002/d.txt'', []),
       (''e.txt'', ''/TEXT/002/e.txt'', [])]"
    by code_simp
  have c: "commit_count empty_db + (length five_files + nat 2 - 1) div nat 2 = 3"
    by (simp add: empty_db_def five_files_def)
  have f1: "1 < length five_files" "sample_fs (five_files ! 1) = None"
    "reject_third (Suc 1)" "five_files ! 1 = ''/TEXT/001/b.txt''"
    "basename ''/TEXT/001/b.txt'' = ''b.txt''"
    by (simp_all add: five_files_def sample_fs_def reject_third_def basename_def)
  have f2: "2 < length five_files" "\<not> reject_third (Suc 2)"
    "five_files ! 2 = ''/TEXT/001/c.txt''"
    by (simp_all add: five_files_def reject_third_def)
  from logs f1 have l1: "Error_reading_file ''/TEXT/001/b.txt'' \<in> set lg"
    and l2: "(''b.txt'', ''/TEXT/001/b.txt'', []) \<in> set (committed d' @ pending d')"
    by fastforce+
  from logs f2 have l3: "Error_processing ''/TEXT/001/c.txt'' \<in> set lg"
    by fastforce
  have rows': "committed d' =
      [(''a.txt'', ''/TEXT/001/a.txt'', ''Hello The theory of things''),
       (''b.txt'', ''/TEXT/001/b.txt'', []),
       (''d.txt'', ''/TEXT/002/d.txt'', []),
       (''e.txt'', ''/TEXT/002/e.txt'', [])]"
    using rows by (simp only: r)
  have cnt': "commit_count d' = 3" using cnt by (simp only: c)
  show ?thesis
    by (intro conjI exI[of _ d'] exI[of _ lg]) (rule b ne run pend rows' cnt' l1 l2 l3)+
qed


text \<open>
  Claim C8. For a batch size \<open>B > 0\<close> and \<open>N\<close> enumerated documents the outer loop runs
  \<open>(N + B - 1) div B\<close> times, the ceiling of \<open>N / B\<close>, committing once per round. Right
  after the \<open>k\<close>-th commit nothing is pending and the committed rows are those present
  before the run followed by the records of the first \<open>k * B\<close> documents (all of them
  when fewer remain), a document whose insertion failed having none. The run as a whole is
  the state after the last round.
\<close>

theorem commits_per_batch:
  assumes "0 < B" and "k \<le> (length files + B - 1) div B"
  shows "length (py_range 0 (length files) B) = (length files + B - 1) div B
     \<and> commit_count (fst (after_batches fs ok ss files B (d, lg) k)) = commit_count d + k
     \<and> (0 < k \<longrightarrow>
          pending (fst (after_batches fs ok ss files B (d, lg) k)) = []
          \<and> committed (fst (after_batches fs ok ss files B (d, lg) k))
              = committed d @ pending d @ rows_of fs ok ss 0 (take (k * B) files))
     \<and> index_text_files fs ok dir files (int B) ss d =
          Inr (PyNone,
               fst (after_batches fs ok ss files B
                      (d, [Indexing_from dir, Found_files (length files)])
                      ((length files + B - 1) div B)),
               snd (after_batches fs ok ss files B
                      (d, [Indexing_from dir, Found_files (length files)])
                      ((length files + B - 1) div B))
                 @ [Indexing_complete (length files)])"
proof (intro conjI impI)
  show "length (py_range 0 (length files) B) = (length files + B - 1) div B"
    by (rule length_py_range[OF assms(1)])
  have db: "fst (after_batches fs ok ss files B (d, lg) k) =
       \<lparr>committed = committed d @ pending d @ rows_of fs ok ss 0 (take (k * B) files),
        pending = [], commit_count = commit_count d + k\<rparr>" if "0 < k"
  proof -
    from that obtain k' where k': "k = Suc k'" by (cases k) auto
    show ?thesis
      using after_batches_db[OF assms(1), of k' files fs ok ss d lg] assms(2)
      unfolding k' by simp
  qed
  show "commit_count (fst (after_batches fs ok ss files B (d, lg) k)) = commit_count d + k"
  proof (cases "0 < k")
    case True
    then show ?thesis by (simp add: db)
  next
    case False
    then show ?thesis by (simp add: after_batches_0)
  qed
  show "pending (fst (after_batches fs ok ss files B (d, lg) k)) = []" if "0 < k"
    using that by (simp add: db)
  show "committed (fst (after_batches fs ok ss files B (d, lg) k))
      = committed d @ pending d @ rows_of fs ok ss 0 (take (k * B) files)" if "0 < k"
    using that by (simp add: db)
  have "0 < int B" using assms(1) by simp
  from index_text_files_eq[OF this, of fs ok dir files ss d]
  show "index_text_files fs ok dir files (int B) ss d =
          Inr (PyNone,
               fst (after_batches fs ok ss files B
                      (d, [Indexing_from dir, Found_files (length files)])
                      ((length files + B - 1) div B)),
               snd (after_batches fs ok ss files B
                      (d, [Indexing_from dir, Found_files (length files)])
                      ((length files + B - 1) div B))
                 @ [Indexing_complete (length files)])"
    by simp
qed

theorem commits_per_batch_witness:
  "(0::nat) < 2 \<and> 2 \<le> (length five_files + 2 - 1) div 2
   \<and> length (py_range 0 (length five_files) 2) = 3
   \<and> commit_count (fst (after_batches sample_fs accept_all 10240 five_files 2 (empty_db, []) 2)) = 2
   \<and> pending (fst (after_batches sample_fs accept_all 10240 five_files 2 (empty_db, []) 2)) = []
   \<and> committed (fst (after_batches sample_fs accept_all 10240 five_files 2 (empty_db, []) 2)) =
       [(''a.txt'', ''/TEXT/001/a.txt'', ''Hello The theory of things''),
        (''b.txt'', ''/TEXT/001/b.txt'', []),
        (''c.txt'', ''/TEXT/001/c.txt'', []),
        (''d.txt'', ''/TEXT/002/d.txt'', [])]"
proof -
  have B: "(0::nat) < 2" by simp
  have n: "length five_files = 5" by (simp add: five_files_def)
  have k: "2 \<le> (length five_files + 2 - 1) div 2" unfolding n by simp
  have c: "(length five_files + 2 - 1) div 2 = 3" unfolding n by simp
  have r: "committed empty_db @ pending empty_db
        @ rows_of sample_fs accept_all 10240 0 (take (2 * 2) five_files) =
       [(''a.txt'', ''/TEXT/001/a.txt'', ''Hello The theory of things''),
        (''b.txt'', ''/TEXT/001/b.txt'', []),
        (''c.txt'', ''/TEXT/001/c.txt'', []),
        (''d.txt'', ''/TEXT/002/d.txt'', [])]"
    by code_simp
  have e: "commit_count empty_db = 0" by (simp add: empty_db_def)
  show ?thesis
    using B k commits_per_batch [OF B k, of sample_fs accept_all 10240 empty_db "[]" "''/TEXT''"]
    unfolding c r e by simp
qed


section \<open>The image route\<close>

text \<open>
  Claim C9: \<open>view_image\<close> answers 400 exactly when the directory token is not a string of
  digits with a value from 1 to 12, or the file name is unsafe. For the token made of the
  superscript two, \<open>isdigit\<close> holds and \<open>int\<close> raises \<open>ValueError\<close>: the handler does not
  answer 400, the exception leaves it.
\<close>

theorem view_image_superscript_digit_unhandled:
  "isdigit [CHR 0xB2] \<and> py_int [CHR 0xB2] = Inl ValueError
   \<and> view_image isfile [CHR 0xB2] ''photo.jpg'' = Unhandled ValueError"
  by (simp add: view_image_def isdigit_def isdigit_char_def py_int_def isdecimal_char_def)


section \<open>Exceptions in the web search\<close>

text \<open>
  Claim C10. Once the connection is open, \<open>search_database\<close> returns a list and closes the
  connection, whatever the query, the window and the search type: the empty list when the
  engine raises on the query and when a row raises while it is processed, the results of
  the rows otherwise.
\<close>

theorem search_database_total:
  "\<exists>rs l. search_database True engine fs query w st = Inr (rs, Closed, l)
     \<and> ((\<exists>e. engine (search_database_fts_query query st) 10000 = Inl e) \<longrightarrow> rs = [])
     \<and> (\<forall>rows e. engine (search_database_fts_query query st) 10000 = Inr rows
           \<longrightarrow> fst (process_rows fs query w rows) = Inl e \<longrightarrow> rs = [])
     \<and> (\<forall>rows rs'. engine (search_database_fts_query query st) 10000 = Inr rows
           \<longrightarrow> fst (process_rows fs query w rows) = Inr rs' \<longrightarrow> rs = rs')"
proof (cases "engine (search_database_fts_query query st) 10000")
  case (Inl e)
  then show ?thesis by (simp add: search_database_def)
next
  case (Inr rows)
  obtain body l where p: "process_rows fs query w rows = (body, l)"
    by (cases "process_rows fs query w rows")
  show ?thesis
    by (cases body) (simp_all add: search_database_def Inr p)
qed

theorem search_database_total_witness:
  "failing_engine (search_database_fts_query ''a*b'' ''content'') 10000 = Inl DatabaseError
   \<and> search_database True failing_engine sample_fs ''a*b'' 1000 ''content''
        = Inr ([], Closed, [Error_searching_database])
   \<and> null_engine (search_database_fts_query ''the'' ''all'') 10000 = Inr [sample_hit, null_hit]
   \<and> fst (process_rows sample_fs ''the'' 1000 [sample_hit, null_hit]) = Inl TypeError
   \<and> (\<exists>l. search_database True null_engine sample_fs ''the'' 1000 ''all'' = Inr ([], Closed, l))"
proof -
  have e1: "failing_engine (search_database_fts_query ''a*b'' ''content'') 10000 = Inl DatabaseError"
    by (simp add: failing_engine_def)
  have e2: "null_engine (search_database_fts_query ''the'' ''all'') 10000 = Inr [sample_hit, null_hit]"
    by (simp add: null_engine_def)
  have p: "fst (process_rows sample_fs ''the'' 1000 [sample_hit, null_hit]) = Inl TypeError"
    by code_simp
  have r1: "search_database True failing_engine sample_fs ''a*b'' 1000 ''content''
        = Inr ([], Closed, [Error_searching_database])"
    by code_simp
  from search_database_total [of null_engine sample_fs "''the''" 1000 "''all''"] e2 p
  have "\<exists>l. search_database True null_engine sample_fs ''the'' 1000 ''all'' = Inr ([], Closed, l)"
    by fastforce
  with e1 e2 p r1 show ?thesis by blast
qed

end
